theory Spec2Isabelle
  imports Complex_Main "HOL-Library.Word" "HOL-Library.Signed_Division"
begin

section \<open>The pulse sensor of Beat-to-Music (\<open>pulse_sensor.py\<close>)\<close>

text \<open>
  The class \<open>PulseSensor\<close> samples a 16-bit ADC, smooths the samples with a ring buffer of
  ten readings, follows the peak and the valley of the smoothed signal, places a threshold
  between them, and reports a beat on a rising crossing of the threshold, with a latch and
  a refractory interval. From the intervals between beats it derives a BPM value.

  Modelling decisions:
  \<^item> Python integers are \<open>int\<close>; list lengths, indices and the fields used only as counts
    (\<open>filter_size\<close>, \<open>max_intervals\<close>, \<open>calibration_samples\<close>, \<open>reading_index\<close>) are \<open>nat\<close>.
  \<^item> A value returned by \<open>ADC.read_u16()\<close> is a \<open>16 word\<close>, read as an integer by \<open>uint\<close>.
    The hardware is an input of the model: \<open>read_filtered\<close> and \<open>detect_beat\<close> take the
    sample they read, \<open>calibrate\<close> takes the function from the loop index to the sample
    read in that iteration.
  \<^item> \<open>utime.ticks_ms()\<close> is an input as well: \<open>detect_beat\<close> takes the time it reads.
  \<^item> Python floats (\<open>threshold_factor\<close>, \<open>threshold * 0.9\<close>, \<open>sum / len\<close>,
    \<open>60000 / avg_interval\<close>) are taken as the exact rationals they denote, type \<open>rat\<close>, and
    \<open>int(x)\<close> on a float truncates towards zero. The rounding of the floating-point unit is
    outside the model. The model computes what the code computes for the default factor
    0.6 on ranges within the 16 bits of the ADC, and for interval windows whose intervals
    all exceed 300 ms. Elsewhere a float product or quotient can fall just below the
    integer that the exact value reaches, and the code then truncates to one less. So a
    statement that gives the value of such an expression is made for the default factor,
    or for a refractory interval of at least 300 ms; statements that hold whatever the
    rounding (bounds, frame conditions) are made for every factor.
  \<^item> Exceptions are values of \<open>py_error\<close>; a call that raises returns \<open>Inl\<close>.
  \<^item> \<open>print\<close> and \<open>sleep_ms\<close> have no effect on the state and are left out.
\<close>

type_synonym u16 = "16 word"

datatype py_error = IndexError | ZeroDivisionError

record pulse_sensor =
  threshold_factor :: rat
  min_beat_interval :: int
  filter_size :: nat
  readings :: "int list"
  reading_index :: nat
  filtered_value :: int
  baseline :: int
  threshold :: int
  last_beat_time :: int
  beat_detected :: bool
  peak_value :: int
  valley_value :: int
  beat_intervals :: "int list"
  max_intervals :: nat
  current_bpm :: int
  calibration_samples :: nat
  calibrated :: bool

text \<open>\<open>int(x)\<close> for a float \<open>x\<close>: truncation towards zero.\<close>

definition py_int :: "rat \<Rightarrow> int" where
  "py_int x = (if 0 \<le> x then \<lfloor>x\<rfloor> else \<lceil>x\<rceil>)"

text \<open>
  \<open>utime.ticks_diff\<close> belongs to MicroPython, not to this repository.
  Modelled from the spec: the difference \<open>now - last_beat_time\<close> of two monotonic
  millisecond timestamps (the wrap-around of the tick counter is outside the model).
\<close>

definition ticks_diff :: "int \<Rightarrow> int \<Rightarrow> int" where
  "ticks_diff t1 t0 = t1 - t0"

text \<open>\<open>__init__\<close>, with the two parameters the claims vary; \<open>adc_pin\<close> only selects the hardware.\<close>

definition init :: "rat \<Rightarrow> int \<Rightarrow> pulse_sensor" where
  "init tf mbi =
     \<lparr>threshold_factor = tf, min_beat_interval = mbi,
      filter_size = 10, readings = replicate 10 0, reading_index = 0, filtered_value = 0,
      baseline = 32768, threshold = 35000, last_beat_time = 0, beat_detected = False,
      peak_value = 0, valley_value = 65535,
      beat_intervals = [], max_intervals = 5, current_bpm = 0,
      calibration_samples = 100, calibrated = False\<rparr>"

text \<open>
  \<open>calibrate\<close>: the loop reads \<open>calibration_samples\<close> samples, \<open>adc i\<close> in iteration \<open>i\<close>,
  and keeps the running minimum and maximum; then the five fields are written.
\<close>

definition samples :: "(nat \<Rightarrow> u16) \<Rightarrow> nat \<Rightarrow> int list" where
  "samples adc n = map (\<lambda>i. uint (adc i)) [0..<n]"

definition calibrate_loop :: "(nat \<Rightarrow> u16) \<Rightarrow> nat \<Rightarrow> int \<times> int" where
  "calibrate_loop adc n =
     fold (\<lambda>raw (min_val, max_val). (min min_val raw, max max_val raw))
       (samples adc n) (65535, 0)"

definition calibrate :: "(nat \<Rightarrow> u16) \<Rightarrow> pulse_sensor \<Rightarrow> pulse_sensor" where
  "calibrate adc s =
     (let (min_val, max_val) = calibrate_loop adc (calibration_samples s);
          bl = (min_val + max_val) div 2
      in s\<lparr>baseline := bl,
           threshold := bl + py_int (of_int (max_val - min_val) * threshold_factor s),
           valley_value := min_val,
           peak_value := max_val,
           calibrated := True\<rparr>)"

text \<open>
  \<open>read_filtered\<close>: the list assignment raises IndexError outside the list, the modulo
  and the floor division raise ZeroDivisionError for \<open>filter_size = 0\<close>.
\<close>

definition read_filtered :: "u16 \<Rightarrow> pulse_sensor \<Rightarrow> py_error + ((int \<times> int) \<times> pulse_sensor)" where
  "read_filtered adc_value s =
     (let raw_reading = uint adc_value in
      if length (readings s) \<le> reading_index s then Inl IndexError
      else if filter_size s = 0 then Inl ZeroDivisionError
      else
        let rs = (readings s)[reading_index s := raw_reading];
            fv = sum_list rs div int (filter_size s)
        in Inr ((raw_reading, fv),
                s\<lparr>readings := rs,
                  reading_index := (reading_index s + 1) mod filter_size s,
                  filtered_value := fv\<rparr>))"

text \<open>
  The block \<open># Calculate BPM\<close> of \<open>detect_beat\<close>, run when a beat fires: record the interval
  since the previous beat (none is recorded while \<open>last_beat_time\<close> is not positive), drop
  the oldest interval beyond \<open>max_intervals\<close>, and recompute the BPM from two intervals on.
  \<open>60000 / avg_interval\<close> raises ZeroDivisionError for a zero average.
\<close>

definition calculate_bpm :: "int \<Rightarrow> pulse_sensor \<Rightarrow> py_error + pulse_sensor" where
  "calculate_bpm current_time s =
     (if last_beat_time s > 0 then
        let interval = ticks_diff current_time (last_beat_time s);
            appended = beat_intervals s @ [interval];
            kept = (if length appended > max_intervals s then tl appended else appended)
        in if length kept \<ge> 2 then
             let avg_interval = (of_int (sum_list kept) / of_int (int (length kept)) :: rat)
             in if avg_interval = 0 then Inl ZeroDivisionError
                else Inr (s\<lparr>beat_intervals := kept, current_bpm := py_int (60000 / avg_interval)\<rparr>)
           else Inr (s\<lparr>beat_intervals := kept\<rparr>)
      else Inr s)"

text \<open>
  \<open>detect_beat\<close> is modelled block by block, in the order of the source. First the
  blocks \<open># Update peak and valley for dynamic threshold\<close> and
  \<open># Dynamic threshold adjustment\<close>, which run on every call.
\<close>

definition adjust_threshold :: "int \<Rightarrow> pulse_sensor \<Rightarrow> pulse_sensor" where
  "adjust_threshold filtered_val s1 =
     (let s2 = (if filtered_val > peak_value s1 then s1\<lparr>peak_value := filtered_val\<rparr> else s1);
          s3 = (if filtered_val < valley_value s2 then s2\<lparr>valley_value := filtered_val\<rparr> else s2);
          signal_range = peak_value s3 - valley_value s3
      in if signal_range > 1000
         then s3\<lparr>threshold := valley_value s3
                     + py_int (of_int signal_range * threshold_factor s3)\<rparr>
         else s3)"

text \<open>
  Then the block \<open># Beat detection: rising edge crossing threshold\<close> with its \<open>elif\<close>
  (\<open># Reset beat flag when signal falls below threshold\<close>) and the \<open>return\<close>.
  \<open>detect_beat\<close> returns \<open>(beat_detected, raw_value, filtered_value, bpm)\<close>, here together
  with the new state.
\<close>

type_synonym beat_info = "bool \<times> int \<times> int \<times> int"

definition rising_edge :: "int \<Rightarrow> int \<Rightarrow> int \<Rightarrow> pulse_sensor \<Rightarrow> py_error + (beat_info \<times> pulse_sensor)" where
  "rising_edge raw_val filtered_val current_time s4 =
     (if filtered_val > threshold s4 \<and> \<not> beat_detected s4
         \<and> ticks_diff current_time (last_beat_time s4) > min_beat_interval s4
      then (case calculate_bpm current_time (s4\<lparr>beat_detected := True\<rparr>) of
              Inl e \<Rightarrow> Inl e
            | Inr s5 \<Rightarrow>
                Inr ((True, raw_val, filtered_val, current_bpm s5),
                     s5\<lparr>last_beat_time := current_time\<rparr>))
      else if (of_int filtered_val :: rat) < of_int (threshold s4) * (9 / 10)
           then Inr ((False, raw_val, filtered_val, current_bpm s4),
                     s4\<lparr>beat_detected := False\<rparr>)
           else Inr ((False, raw_val, filtered_val, current_bpm s4), s4))"

definition detect_beat :: "u16 \<Rightarrow> int \<Rightarrow> pulse_sensor \<Rightarrow> py_error + (beat_info \<times> pulse_sensor)" where
  "detect_beat adc_value current_time s0 =
     (case read_filtered adc_value s0 of
        Inl e \<Rightarrow> Inl e
      | Inr ((raw_val, filtered_val), s1) \<Rightarrow>
          rising_edge raw_val filtered_val current_time (adjust_threshold filtered_val s1))"

text \<open>\<open>get_signal_strength\<close>; Python's \<open>//\<close> is floor division, as \<open>div\<close> on \<open>int\<close>.\<close>

definition get_signal_strength :: "pulse_sensor \<Rightarrow> int" where
  "get_signal_strength s =
     (let signal_range = peak_value s - valley_value s
      in min 100 (max 0 ((signal_range - 500) div 100)))"

subsection \<open>Sequences of calls\<close>

text \<open>
  A client calls \<open>calibrate\<close> and \<open>detect_beat\<close> in some order. \<open>run\<close> performs a list of
  calls, collects what each returned (\<open>None\<close> for \<open>calibrate\<close>) and stops at the first
  exception.
\<close>

datatype call = Calibrate "nat \<Rightarrow> u16" | Detect u16 int

fun exec :: "call \<Rightarrow> pulse_sensor \<Rightarrow> py_error + (beat_info option \<times> pulse_sensor)" where
  "exec (Calibrate adc) s = Inr (None, calibrate adc s)"
| "exec (Detect r t) s =
     (case detect_beat r t s of Inl e \<Rightarrow> Inl e | Inr (out, s') \<Rightarrow> Inr (Some out, s'))"

fun run :: "call list \<Rightarrow> pulse_sensor \<Rightarrow> py_error + (beat_info option list \<times> pulse_sensor)" where
  "run [] s = Inr ([], s)"
| "run (c # cs) s =
     (case exec c s of
        Inl e \<Rightarrow> Inl e
      | Inr (out, s') \<Rightarrow>
          (case run cs s' of Inl e \<Rightarrow> Inl e | Inr (outs, s'') \<Rightarrow> Inr (out # outs, s'')))"

text \<open>Successive calls of \<open>read_filtered\<close>, one per sample.\<close>

fun read_all :: "u16 list \<Rightarrow> pulse_sensor \<Rightarrow> py_error + ((int \<times> int) list \<times> pulse_sensor)" where
  "read_all [] s = Inr ([], s)"
| "read_all (r # rs) s =
     (case read_filtered r s of
        Inl e \<Rightarrow> Inl e
      | Inr (out, s') \<Rightarrow>
          (case read_all rs s' of Inl e \<Rightarrow> Inl e | Inr (outs, s'') \<Rightarrow> Inr (out # outs, s'')))"

subsection \<open>Notions used in the statements\<close>

text \<open>A run of \<open>detect_beat\<close> calls only, given as the samples and times they read.\<close>

abbreviation detects :: "(u16 \<times> int) list \<Rightarrow> call list" where
  "detects ins \<equiv> map (\<lambda>(r, t). Detect r t) ins"

text \<open>
  The interval window after one more interval \<open>x\<close> is appended and, beyond \<open>max_intervals\<close>,
  the oldest is dropped; and the BPM of a window, \<open>int(60000 / (sum / len))\<close>.
\<close>

definition pushed :: "pulse_sensor \<Rightarrow> int \<Rightarrow> int list" where
  "pushed s x = (if length (beat_intervals s) + 1 > max_intervals s
                 then tl (beat_intervals s @ [x]) else beat_intervals s @ [x])"

definition bpm_of :: "int list \<Rightarrow> int" where
  "bpm_of w = py_int (60000 / (of_int (sum_list w) / of_int (int (length w))))"

text \<open>The BPM field agrees with the window: 0 below two intervals, else the BPM of the window.\<close>

definition bpm_matches_window :: "pulse_sensor \<Rightarrow> bool" where
  "bpm_matches_window s \<longleftrightarrow>
     current_bpm s = (if length (beat_intervals s) < 2 then 0 else bpm_of (beat_intervals s))"

definition window_ok :: "pulse_sensor \<Rightarrow> bool" where
  "window_ok s \<longleftrightarrow> max_intervals s = 5 \<and> length (beat_intervals s) \<le> 5"

text \<open>
  The signal strength in the words of the specification:
  \<open>clamp(0, 100, (peak - valley - 500) / 100)\<close> with integer truncation (\<open>sdiv\<close> truncates
  towards zero).
\<close>

definition clamp :: "int \<Rightarrow> int \<Rightarrow> int \<Rightarrow> int" where
  "clamp lo hi x = max lo (min hi x)"

definition spec_signal_strength :: "int \<Rightarrow> int \<Rightarrow> int" where
  "spec_signal_strength pk vl = clamp 0 100 ((pk - vl - 500) sdiv 100)"





text \<open>The times of the calls of a run that returned \<open>beat_detected = True\<close>, in order.\<close>

fun beat_times :: "call list \<Rightarrow> beat_info option list \<Rightarrow> int list" where
  "beat_times (c # cs) (out # outs) =
     (case (c, out) of
        (Detect r t, Some (True, x)) \<Rightarrow> t # beat_times cs outs
      | _ \<Rightarrow> beat_times cs outs)"
| "beat_times _ _ = []"

subsection \<open>Example inputs\<close>

text \<open>
  A sensor with the default parameters (factor 0.6, refractory interval 300 ms): the state
  after a list of calls and what the calls returned. \<open>range_state\<close> sets peak and valley
  by hand.
\<close>

definition state_after :: "call list \<Rightarrow> pulse_sensor" where
  "state_after cs =
     (case run cs (init (6 / 10) 300) of Inr (outs, s) \<Rightarrow> s | Inl e \<Rightarrow> init (6 / 10) 300)"

definition outputs_of :: "call list \<Rightarrow> beat_info option list" where
  "outputs_of cs = (case run cs (init (6 / 10) 300) of Inr (outs, s) \<Rightarrow> outs | Inl e \<Rightarrow> [])"

definition range_state :: "int \<Rightarrow> int \<Rightarrow> pulse_sensor" where
  "range_state pk vl = (init (6 / 10) 300)\<lparr>peak_value := pk, valley_value := vl\<rparr>"

text \<open>An ADC that reads the same value all the time, and one that reads 20000, then 40000.\<close>

definition flat_adc :: "u16 \<Rightarrow> nat \<Rightarrow> u16" where
  "flat_adc v i = v"

definition square_adc :: "nat \<Rightarrow> u16" where
  "square_adc i = (if i < 50 then 20000 else 40000)"

text \<open>
  Six beats 600 ms apart. One sample of 60000 keeps the filtered value at 6000; a
  calibration on a flat 5000 puts the threshold below it, one on a flat 7000 above it.
\<close>

definition train :: "call list" where
  "train =
    [Calibrate (flat_adc 5000), Detect 60000 1000,
     Calibrate (flat_adc 7000), Detect 0 1300,
     Calibrate (flat_adc 5000), Detect 0 1600,
     Calibrate (flat_adc 7000), Detect 0 1900,
     Calibrate (flat_adc 5000), Detect 0 2200,
     Calibrate (flat_adc 7000), Detect 0 2500,
     Calibrate (flat_adc 5000), Detect 0 2800,
     Calibrate (flat_adc 7000), Detect 0 3100,
     Calibrate (flat_adc 5000), Detect 0 3400,
     Calibrate (flat_adc 7000), Detect 0 3700,
     Calibrate (flat_adc 5000), Detect 60000 4000]"

definition train_outs :: "beat_info option list" where
  "train_outs =
    [None, Some (True, 60000, 6000, 0), None, Some (False, 0, 6000, 0),
     None, Some (True, 0, 6000, 0), None, Some (False, 0, 6000, 0),
     None, Some (True, 0, 6000, 100), None, Some (False, 0, 6000, 100),
     None, Some (True, 0, 6000, 100), None, Some (False, 0, 6000, 100),
     None, Some (True, 0, 6000, 100), None, Some (False, 0, 6000, 100),
     None, Some (True, 60000, 6000, 100)]"




text \<open>A beat, the reset of the latch, and a crossing 200 ms after the beat.\<close>

definition close_calls :: "call list" where
  "close_calls =
    [Calibrate (flat_adc 5000), Detect 60000 1000,
     Calibrate (flat_adc 7000), Detect 0 1100,
     Calibrate (flat_adc 5000), Detect 0 1200]"




section \<open>The blocks of \<open>detect_beat\<close>\<close>

lemma read_filtered_Inr:
  assumes "read_filtered r s = Inr ((rw, f), s1)"
  shows "rw = uint r"
    and "f = sum_list ((readings s)[reading_index s := uint r]) div int (filter_size s)"
    and "s1 = s\<lparr>readings := (readings s)[reading_index s := uint r],
               reading_index := (reading_index s + 1) mod filter_size s,
               filtered_value := f\<rparr>"
    and "reading_index s < length (readings s)" and "filter_size s \<noteq> 0"
  using assms unfolding read_filtered_def Let_def
  by (auto split: if_splits)

lemma adjust_threshold_eq:
  "adjust_threshold f s =
     s\<lparr>peak_value := max (peak_value s) f,
       valley_value := min (valley_value s) f,
       threshold :=
         (if max (peak_value s) f - min (valley_value s) f > 1000
          then min (valley_value s) f
                 + py_int (of_int (max (peak_value s) f - min (valley_value s) f) * threshold_factor s)
          else threshold s)\<rparr>"
  unfolding adjust_threshold_def Let_def
  by (simp add: max_def min_def)

lemma calculate_bpm_Inr:
  assumes "calculate_bpm t s = Inr s5"
  shows "s5 = s\<lparr>beat_intervals := beat_intervals s5, current_bpm := current_bpm s5\<rparr>"
    and "beat_intervals s5 =
           (if last_beat_time s > 0 then pushed s (t - last_beat_time s) else beat_intervals s)"
    and "current_bpm s5 =
           (if last_beat_time s > 0 \<and> 2 \<le> length (pushed s (t - last_beat_time s))
            then bpm_of (pushed s (t - last_beat_time s)) else current_bpm s)"
    and "last_beat_time s > 0 \<Longrightarrow> 2 \<le> length (pushed s (t - last_beat_time s))
           \<Longrightarrow> sum_list (pushed s (t - last_beat_time s)) \<noteq> 0"
  using assms unfolding calculate_bpm_def Let_def pushed_def bpm_of_def ticks_diff_def
  by (auto split: if_splits)

lemma rising_edge_Inr:
  assumes "rising_edge rw f t s4 = Inr ((b, rw', f', bpm), s')"
  shows "rw' = rw" and "f' = f" and "bpm = current_bpm s'"
    and "b \<longleftrightarrow> f > threshold s4 \<and> \<not> beat_detected s4 \<and> t - last_beat_time s4 > min_beat_interval s4"
    and "\<not> b \<Longrightarrow> s' = s4\<lparr>beat_detected :=
            beat_detected s4 \<and> \<not> (of_int f :: rat) < of_int (threshold s4) * (9 / 10)\<rparr>"
    and "b \<Longrightarrow> \<exists>s5. calculate_bpm t (s4\<lparr>beat_detected := True\<rparr>) = Inr s5
               \<and> s' = s5\<lparr>last_beat_time := t\<rparr>"
  using assms unfolding rising_edge_def ticks_diff_def
  by (auto split: if_splits sum.splits)

lemma detect_beat_Inr:
  assumes "detect_beat r t s = Inr ((b, rw, f, bpm), s')"
  obtains s1 where "read_filtered r s = Inr ((rw, f), s1)"
    and "rising_edge rw f t (adjust_threshold f s1) = Inr ((b, rw, f, bpm), s')"
  using assms unfolding detect_beat_def
  by (auto split: sum.splits prod.splits dest: rising_edge_Inr(1,2))


lemma detect_beat_state:
  assumes "detect_beat r t s = Inr ((b, rw, f, bpm), s')"
  shows "threshold_factor s' = threshold_factor s"
    and "min_beat_interval s' = min_beat_interval s"
    and "max_intervals s' = max_intervals s"
    and "filter_size s' = filter_size s"
    and "calibration_samples s' = calibration_samples s"
    and "length (readings s') = length (readings s)"
    and "peak_value s' = max (peak_value s) f"
    and "valley_value s' = min (valley_value s) f"
    and "threshold s' =
          (if peak_value s' - valley_value s' > 1000
           then valley_value s'
                  + py_int (of_int (peak_value s' - valley_value s') * threshold_factor s')
           else threshold s)"
    and "bpm = current_bpm s'"
    and "rw = uint r"
    and "filtered_value s' = f"
proof -
  from assms obtain s1 where rf: "read_filtered r s = Inr ((rw, f), s1)"
    and re: "rising_edge rw f t (adjust_threshold f s1) = Inr ((b, rw, f, bpm), s')"
    by (rule detect_beat_Inr)
  note s1 = read_filtered_Inr(3)[OF rf]
  show "bpm = current_bpm s'" by (rule rising_edge_Inr(3)[OF re])
  show "rw = uint r" by (rule read_filtered_Inr(1)[OF rf])
  define s4 where "s4 = adjust_threshold f s1"
  have "\<exists>bd bi cb lb. s' = s4\<lparr>beat_detected := bd, beat_intervals := bi,
                current_bpm := cb, last_beat_time := lb\<rparr>"
  proof (cases b)
    case False
    from rising_edge_Inr(5)[OF re False]
    have "s' = s4\<lparr>beat_detected := beat_detected s', beat_intervals := beat_intervals s4,
                current_bpm := current_bpm s4, last_beat_time := last_beat_time s4\<rparr>"
      unfolding s4_def[symmetric] by simp
    then show ?thesis by blast
  next
    case True
    from rising_edge_Inr(6)[OF re True] obtain s5
      where c: "calculate_bpm t (s4\<lparr>beat_detected := True\<rparr>) = Inr s5"
        and e: "s' = s5\<lparr>last_beat_time := t\<rparr>" unfolding s4_def[symmetric] by blast
    have "s' = s4\<lparr>beat_detected := True, beat_intervals := beat_intervals s5,
                current_bpm := current_bpm s5, last_beat_time := t\<rparr>"
      unfolding e by (subst calculate_bpm_Inr(1)[OF c]) simp
    then show ?thesis by blast
  qed
  then obtain bd bi cb lb where e: "s' = (adjust_threshold f s1)\<lparr>beat_detected := bd,
      beat_intervals := bi, current_bpm := cb, last_beat_time := lb\<rparr>"
    unfolding s4_def by blast
  show "threshold_factor s' = threshold_factor s"
    and "min_beat_interval s' = min_beat_interval s"
    and "max_intervals s' = max_intervals s"
    and "filter_size s' = filter_size s"
    and "calibration_samples s' = calibration_samples s"
    and "length (readings s') = length (readings s)"
    and "filtered_value s' = f"
    and pk: "peak_value s' = max (peak_value s) f"
    and vl: "valley_value s' = min (valley_value s) f"
    by (simp_all add: e adjust_threshold_eq s1)
  show "threshold s' =
          (if peak_value s' - valley_value s' > 1000
           then valley_value s'
                  + py_int (of_int (peak_value s' - valley_value s') * threshold_factor s')
           else threshold s)"
    by (simp add: e adjust_threshold_eq s1)
qed


lemma detect_beat_edge:
  assumes "detect_beat r t s = Inr ((b, rw, f, bpm), s')"
  shows "b \<longleftrightarrow> f > threshold s' \<and> \<not> beat_detected s
               \<and> t - last_beat_time s > min_beat_interval s"
    and "\<not> b \<Longrightarrow> last_beat_time s' = last_beat_time s"
    and "\<not> b \<Longrightarrow> beat_intervals s' = beat_intervals s"
    and "\<not> b \<Longrightarrow> current_bpm s' = current_bpm s"
    and "\<not> b \<Longrightarrow> beat_detected s' \<longleftrightarrow>
            beat_detected s \<and> \<not> (of_int f :: rat) < of_int (threshold s') * (9 / 10)"
    and "b \<Longrightarrow> beat_detected s'"
    and "b \<Longrightarrow> last_beat_time s' = t"
    and "b \<Longrightarrow> beat_intervals s' =
            (if last_beat_time s > 0 then pushed s (t - last_beat_time s) else beat_intervals s)"
    and "b \<Longrightarrow> current_bpm s' =
            (if last_beat_time s > 0 \<and> 2 \<le> length (pushed s (t - last_beat_time s))
             then bpm_of (pushed s (t - last_beat_time s)) else current_bpm s)"
proof -
  from assms obtain s1 where rf: "read_filtered r s = Inr ((rw, f), s1)"
    and re: "rising_edge rw f t (adjust_threshold f s1) = Inr ((b, rw, f, bpm), s')"
    by (rule detect_beat_Inr)
  note s1 = read_filtered_Inr(3)[OF rf]
  define s4 where "s4 = adjust_threshold f s1"
  have s4: "beat_detected s4 = beat_detected s" "last_beat_time s4 = last_beat_time s"
    "min_beat_interval s4 = min_beat_interval s" "beat_intervals s4 = beat_intervals s"
    "current_bpm s4 = current_bpm s" "max_intervals s4 = max_intervals s"
    by (simp_all add: s4_def adjust_threshold_eq s1)
  note re' = re[folded s4_def]
  have thr: "threshold s' = threshold s4"
  proof (cases b)
    case False
    from rising_edge_Inr(5)[OF re' False] show ?thesis by simp
  next
    case True
    from rising_edge_Inr(6)[OF re' True] obtain s5
      where c: "calculate_bpm t (s4\<lparr>beat_detected := True\<rparr>) = Inr s5"
        and e: "s' = s5\<lparr>last_beat_time := t\<rparr>" by blast
    have "threshold s5 = threshold s4"
      by (subst calculate_bpm_Inr(1)[OF c]) simp
    then show ?thesis by (simp add: e)
  qed
  from rising_edge_Inr(4)[OF re']
  show "b \<longleftrightarrow> f > threshold s' \<and> \<not> beat_detected s
               \<and> t - last_beat_time s > min_beat_interval s"
    by (simp add: thr s4)
  {
    assume nb: "\<not> b"
    note e = rising_edge_Inr(5)[OF re' nb]
    show "last_beat_time s' = last_beat_time s" by (subst e) (simp add: s4)
    show "beat_intervals s' = beat_intervals s" by (subst e) (simp add: s4)
    show "current_bpm s' = current_bpm s" by (subst e) (simp add: s4)
    show "beat_detected s' \<longleftrightarrow>
            beat_detected s \<and> \<not> (of_int f :: rat) < of_int (threshold s') * (9 / 10)"
      unfolding thr by (subst e) (simp add: s4)
  }
  {
    assume b: "b"
    from rising_edge_Inr(6)[OF re' b] obtain s5
      where c: "calculate_bpm t (s4\<lparr>beat_detected := True\<rparr>) = Inr s5"
        and e: "s' = s5\<lparr>last_beat_time := t\<rparr>" by blast
    have p: "pushed (s4\<lparr>beat_detected := True\<rparr>) x = pushed s x" for x
      by (simp add: pushed_def s4)
    have "beat_detected s5" by (subst calculate_bpm_Inr(1)[OF c]) simp
    then show "beat_detected s'" by (simp add: e)
    show "last_beat_time s' = t" by (simp add: e)
    from calculate_bpm_Inr(2)[OF c]
    show "beat_intervals s' =
            (if last_beat_time s > 0 then pushed s (t - last_beat_time s) else beat_intervals s)"
      by (simp add: e p s4)
    from calculate_bpm_Inr(3)[OF c]
    show "current_bpm s' =
            (if last_beat_time s > 0 \<and> 2 \<le> length (pushed s (t - last_beat_time s))
             then bpm_of (pushed s (t - last_beat_time s)) else current_bpm s)"
      by (simp add: e p s4)
  }
qed

section \<open>Sequences of calls\<close>

lemma calibrate_eq:
  "calibrate adc s =
     s\<lparr>baseline := baseline (calibrate adc s), threshold := threshold (calibrate adc s),
       valley_value := valley_value (calibrate adc s), peak_value := peak_value (calibrate adc s),
       calibrated := True\<rparr>"
  by (simp add: calibrate_def Let_def split: prod.splits)

lemma calibrate_threshold:
  "threshold (calibrate adc s) =
     baseline (calibrate adc s)
       + py_int (of_int (peak_value (calibrate adc s) - valley_value (calibrate adc s))
                   * threshold_factor s)"
  by (simp add: calibrate_def Let_def split: prod.splits)

lemma calibrate_frame:
  "threshold_factor (calibrate adc s) = threshold_factor s"
  "min_beat_interval (calibrate adc s) = min_beat_interval s"
  "max_intervals (calibrate adc s) = max_intervals s"
  "filter_size (calibrate adc s) = filter_size s"
  "readings (calibrate adc s) = readings s"
  "reading_index (calibrate adc s) = reading_index s"
  "last_beat_time (calibrate adc s) = last_beat_time s"
  "beat_detected (calibrate adc s) = beat_detected s"
  "beat_intervals (calibrate adc s) = beat_intervals s"
  "current_bpm (calibrate adc s) = current_bpm s"
  by (subst calibrate_eq, simp)+

lemma exec_Detect_Inr:
  assumes "exec (Detect r t) s = Inr (out, s')"
  obtains b rw f bpm where "out = Some (b, rw, f, bpm)"
    and "detect_beat r t s = Inr ((b, rw, f, bpm), s')"
  using assms by (auto split: sum.splits)

lemma run_Cons_Inr:
  assumes "run (c # cs) s = Inr (outs, s'')"
  obtains out s' outs' where "exec c s = Inr (out, s')" and "run cs s' = Inr (outs', s'')"
    and "outs = out # outs'"
  using assms by (auto split: sum.splits)

lemma run_length:
  "run cs s = Inr (outs, s') \<Longrightarrow> length outs = length cs"
  by (induction cs arbitrary: s outs) (auto split: sum.splits)

lemma run_detects_Cons:
  assumes "run (detects ((r, t) # ins)) s = Inr (outs, s'')"
  obtains b rw f bpm s' outs' where "detect_beat r t s = Inr ((b, rw, f, bpm), s')"
    and "run (detects ins) s' = Inr (outs', s'')"
    and "outs = Some (b, rw, f, bpm) # outs'"
  using assms by (auto split: sum.splits)

lemma run_detects_range:
  assumes "run (detects ins) s = Inr (outs, s')"
  shows "peak_value s \<le> peak_value s' \<and> valley_value s' \<le> valley_value s
     \<and> peak_value s - valley_value s \<le> peak_value s' - valley_value s'
     \<and> (\<forall>b rw f bpm. Some (b, rw, f, bpm) \<in> set outs
            \<longrightarrow> valley_value s' \<le> f \<and> f \<le> peak_value s')"
  using assms
proof (induction ins arbitrary: s outs)
  case Nil
  then show ?case by simp
next
  case (Cons x ins)
  obtain r t where x: "x = (r, t)" by (cases x)
  from Cons.prems obtain b rw f bpm s1 outs1
    where d: "detect_beat r t s = Inr ((b, rw, f, bpm), s1)"
      and r: "run (detects ins) s1 = Inr (outs1, s')"
      and o: "outs = Some (b, rw, f, bpm) # outs1"
    unfolding x by (rule run_detects_Cons)
  note ih = Cons.IH[OF r]
  have pk: "peak_value s1 = max (peak_value s) f" and vl: "valley_value s1 = min (valley_value s) f"
    by (rule detect_beat_state[OF d])+
  from ih have 1: "peak_value s \<le> peak_value s'" "valley_value s' \<le> valley_value s"
    "valley_value s' \<le> f" "f \<le> peak_value s'"
    unfolding pk vl by simp_all
  then have 2: "peak_value s - valley_value s \<le> peak_value s' - valley_value s'" by linarith
  from ih 1 2 show ?case unfolding o by auto
qed

lemma exec_frame:
  assumes "exec c s = Inr (out, s')"
  shows "min_beat_interval s' = min_beat_interval s"
    and "max_intervals s' = max_intervals s"
    and "threshold_factor s' = threshold_factor s"
proof -
  have "min_beat_interval s' = min_beat_interval s \<and> max_intervals s' = max_intervals s
      \<and> threshold_factor s' = threshold_factor s"
  proof (cases c)
    case (Calibrate adc)
    with assms show ?thesis by (auto simp: calibrate_frame)
  next
    case (Detect r t)
    from assms[unfolded Detect] obtain b rw f bpm
      where "detect_beat r t s = Inr ((b, rw, f, bpm), s')"
      by (rule exec_Detect_Inr)
    from detect_beat_state(1,2,3)[OF this] show ?thesis by simp
  qed
  then show "min_beat_interval s' = min_beat_interval s"
    and "max_intervals s' = max_intervals s"
    and "threshold_factor s' = threshold_factor s" by simp_all
qed

text \<open>What a call does to the time of the last beat.\<close>

lemma exec_last_beat_time:
  assumes "exec c s = Inr (out, s')"
  shows "(\<exists>r t x. c = Detect r t \<and> out = Some (True, x)
            \<and> min_beat_interval s < t - last_beat_time s \<and> last_beat_time s' = t)
         \<or> ((\<forall>x. out \<noteq> Some (True, x)) \<and> last_beat_time s' = last_beat_time s
              \<and> beat_intervals s' = beat_intervals s \<and> current_bpm s' = current_bpm s)"
proof (cases c)
  case (Calibrate adc)
  with assms show ?thesis by (auto simp: calibrate_frame)
next
  case (Detect r t)
  from assms[unfolded Detect] obtain b rw f bpm where o: "out = Some (b, rw, f, bpm)"
    and d: "detect_beat r t s = Inr ((b, rw, f, bpm), s')"
    by (rule exec_Detect_Inr)
  show ?thesis
  proof (cases b)
    case True
    from detect_beat_edge(1)[OF d] detect_beat_edge(7)[OF d True] True o Detect
    show ?thesis by simp
  next
    case False
    from detect_beat_edge(2,3,4)[OF d False] False o show ?thesis by simp
  qed
qed

lemma run_beats_after:
  assumes "run cs s = Inr (outs, s')" and "0 \<le> min_beat_interval s"
  shows "last_beat_time s \<le> last_beat_time s'
     \<and> (\<forall>j r t x. j < length cs \<and> cs ! j = Detect r t \<and> outs ! j = Some (True, x)
            \<longrightarrow> last_beat_time s + min_beat_interval s < t \<and> t \<le> last_beat_time s')"
  using assms
proof (induction cs arbitrary: s outs)
  case Nil
  then show ?case by simp
next
  case (Cons c cs)
  from Cons.prems(1) obtain out s1 outs1 where e: "exec c s = Inr (out, s1)"
    and r: "run cs s1 = Inr (outs1, s')" and o: "outs = out # outs1"
    by (rule run_Cons_Inr)
  have m: "min_beat_interval s1 = min_beat_interval s" by (rule exec_frame[OF e])
  from Cons.prems(2) have m0: "0 \<le> min_beat_interval s1" by (simp add: m)
  note ih = Cons.IH[OF r m0, unfolded m]
  from ih have ih1: "last_beat_time s1 \<le> last_beat_time s'" by (rule conjunct1)
  have ih2: "last_beat_time s1 + min_beat_interval s < t \<and> t \<le> last_beat_time s'"
    if "j < length cs" "cs ! j = Detect r t" "outs1 ! j = Some (True, x)" for j r t x
    using ih that by blast
  from exec_last_beat_time[OF e] Cons.prems(2)
  have mono: "last_beat_time s \<le> last_beat_time s1" by auto
  have "last_beat_time s + min_beat_interval s < t \<and> t \<le> last_beat_time s'"
    if "j < length (c # cs)" "(c # cs) ! j = Detect r t" "outs ! j = Some (True, x)" for j r t x
  proof (cases j)
    case 0
    with that o have "c = Detect r t" "out = Some (True, x)" by simp_all
    with exec_last_beat_time[OF e] have "min_beat_interval s < t - last_beat_time s"
      "last_beat_time s1 = t" by auto
    with ih1 show ?thesis by simp
  next
    case (Suc k)
    with that o have "k < length cs" "cs ! k = Detect r t" "outs1 ! k = Some (True, x)" by simp_all
    from ih2[OF this] mono show ?thesis by simp
  qed
  with mono ih1 show ?case by (metis order_trans)
qed

lemma run_beats_apart:
  assumes "run cs s = Inr (outs, s')" and "0 \<le> min_beat_interval s"
    and "i < j" and "j < length cs"
    and "cs ! i = Detect ri ti" and "cs ! j = Detect rj tj"
    and "outs ! i = Some (True, xi)" and "outs ! j = Some (True, xj)"
  shows "min_beat_interval s < tj - ti"
  using assms
proof (induction cs arbitrary: s outs i j)
  case Nil
  then show ?case by simp
next
  case (Cons c cs)
  from Cons.prems(1) obtain out s1 outs1 where e: "exec c s = Inr (out, s1)"
    and r: "run cs s1 = Inr (outs1, s')" and o: "outs = out # outs1"
    by (rule run_Cons_Inr)
  have m: "min_beat_interval s1 = min_beat_interval s" by (rule exec_frame[OF e])
  from Cons.prems(3) obtain j' where j: "j = Suc j'" by (cases j) auto
  with Cons.prems o have j': "j' < length cs" "cs ! j' = Detect rj tj" "outs1 ! j' = Some (True, xj)"
    by simp_all
  show ?case
  proof (cases i)
    case 0
    with Cons.prems o have "c = Detect ri ti" "out = Some (True, xi)" by simp_all
    with exec_last_beat_time[OF e] have "last_beat_time s1 = ti" by auto
    moreover from run_beats_after[OF r] Cons.prems(2) m j'
    have "last_beat_time s1 + min_beat_interval s < tj" by metis
    ultimately show ?thesis by simp
  next
    case (Suc i')
    with Cons.prems o j have "i' < j'" "cs ! i' = Detect ri ti" "outs1 ! i' = Some (True, xi)"
      by simp_all
    from Cons.IH[OF r _ this(1) j'(1) this(2) j'(2) this(3) j'(3)] Cons.prems(2) m
    show ?thesis by simp
  qed
qed

lemma length_pushed:
  "length (pushed s x) = (if max_intervals s < length (beat_intervals s) + 1
                          then length (beat_intervals s) else length (beat_intervals s) + 1)"
  by (simp add: pushed_def)

lemma detect_beat_bpm_matches:
  assumes "detect_beat r t s = Inr ((b, rw, f, bpm), s')" and "bpm_matches_window s"
  shows "bpm_matches_window s'"
proof (cases b)
  case False
  from detect_beat_edge(3,4)[OF assms(1) False] assms(2) show ?thesis
    by (simp add: bpm_matches_window_def)
next
  case True
  note w = detect_beat_edge(8)[OF assms(1) True] and c = detect_beat_edge(9)[OF assms(1) True]
  show ?thesis
  proof (cases "0 < last_beat_time s")
    case False
    with w c assms(2) show ?thesis by (simp add: bpm_matches_window_def)
  next
    case pos: True
    show ?thesis
    proof (cases "2 \<le> length (pushed s (t - last_beat_time s))")
      case True
      with w c pos show ?thesis by (simp add: bpm_matches_window_def)
    next
      case False
      then have "length (beat_intervals s) < 2"
        by (simp add: length_pushed split: if_splits)
      with assms(2) have "current_bpm s = 0" by (simp add: bpm_matches_window_def)
      with w c pos False show ?thesis by (simp add: bpm_matches_window_def)
    qed
  qed
qed

lemma detect_beat_window_ok:
  assumes "detect_beat r t s = Inr ((b, rw, f, bpm), s')" and "window_ok s"
  shows "window_ok s'"
proof (cases b)
  case False
  from detect_beat_edge(3)[OF assms(1) False] detect_beat_state(3)[OF assms(1)] assms(2)
  show ?thesis by (simp add: window_ok_def)
next
  case True
  from detect_beat_edge(8)[OF assms(1) True] detect_beat_state(3)[OF assms(1)] assms(2)
  show ?thesis by (simp add: window_ok_def length_pushed)
qed

lemma exec_invariants:
  assumes "exec c s = Inr (out, s')"
  shows "bpm_matches_window s \<Longrightarrow> bpm_matches_window s'"
    and "window_ok s \<Longrightarrow> window_ok s'"
    and "\<And>b rw f bpm. out = Some (b, rw, f, bpm) \<Longrightarrow> bpm = current_bpm s'"
proof -
  have "(bpm_matches_window s \<longrightarrow> bpm_matches_window s') \<and> (window_ok s \<longrightarrow> window_ok s')
     \<and> (\<forall>b rw f bpm. out = Some (b, rw, f, bpm) \<longrightarrow> bpm = current_bpm s')"
  proof (cases c)
    case (Calibrate adc)
    with assms show ?thesis
      by (auto simp: bpm_matches_window_def window_ok_def calibrate_frame)
  next
    case (Detect r t)
    from assms[unfolded Detect] obtain b rw f bpm where o: "out = Some (b, rw, f, bpm)"
      and d: "detect_beat r t s = Inr ((b, rw, f, bpm), s')"
      by (rule exec_Detect_Inr)
    from detect_beat_bpm_matches[OF d] detect_beat_window_ok[OF d] detect_beat_state(10)[OF d] o
    show ?thesis by simp
  qed
  then show "bpm_matches_window s \<Longrightarrow> bpm_matches_window s'"
    and "window_ok s \<Longrightarrow> window_ok s'"
    and "\<And>b rw f bpm. out = Some (b, rw, f, bpm) \<Longrightarrow> bpm = current_bpm s'" by blast+
qed

lemma run_invariants:
  assumes "run cs s = Inr (outs, s')"
  shows "bpm_matches_window s \<Longrightarrow> bpm_matches_window s'"
    and "window_ok s \<Longrightarrow> window_ok s'"
    and "min_beat_interval s' = min_beat_interval s"
proof -
  from assms have "(bpm_matches_window s \<longrightarrow> bpm_matches_window s')
      \<and> (window_ok s \<longrightarrow> window_ok s') \<and> min_beat_interval s' = min_beat_interval s"
  proof (induction cs arbitrary: s outs)
    case Nil
    then show ?case by simp
  next
    case (Cons c cs)
    from Cons.prems(1) obtain out s1 outs1 where e: "exec c s = Inr (out, s1)"
      and r: "run cs s1 = Inr (outs1, s')" and o: "outs = out # outs1"
      by (rule run_Cons_Inr)
    from Cons.IH[OF r] exec_invariants(1,2)[OF e] exec_frame(1)[OF e] show ?case by simp
  qed
  then show "bpm_matches_window s \<Longrightarrow> bpm_matches_window s'"
    and "window_ok s \<Longrightarrow> window_ok s'"
    and "min_beat_interval s' = min_beat_interval s" by simp_all
qed

lemma init_invariants:
  "bpm_matches_window (init tf mbi)" "window_ok (init tf mbi)"
  "last_beat_time (init tf mbi) = 0" "min_beat_interval (init tf mbi) = mbi"
  by (simp_all add: bpm_matches_window_def window_ok_def init_def)

lemma beat_times_beat:
  "beat_times (Detect r t # cs) (Some (True, x) # outs) = t # beat_times cs outs"
  by simp

lemma beat_times_no_beat:
  assumes "\<forall>x. out \<noteq> Some (True, x)"
  shows "beat_times (c # cs) (out # outs) = beat_times cs outs"
  using assms by (auto split: call.splits option.splits bool.splits)

text \<open>What a call does to the beat state: either it is a \<open>detect_beat\<close> that fires, or the
  time of the last beat, the interval window and the BPM stay as they are.\<close>

lemma exec_beat_or_not:
  assumes "exec c s = Inr (out, s')"
  shows "(\<exists>r t x. c = Detect r t \<and> out = Some (True, x)
            \<and> min_beat_interval s < t - last_beat_time s \<and> last_beat_time s' = t
            \<and> beat_intervals s' = (if 0 < last_beat_time s
                  then pushed s (t - last_beat_time s) else beat_intervals s))
         \<or> ((\<forall>x. out \<noteq> Some (True, x)) \<and> last_beat_time s' = last_beat_time s
              \<and> beat_intervals s' = beat_intervals s \<and> current_bpm s' = current_bpm s)"
proof (cases c)
  case (Calibrate adc)
  with assms show ?thesis by (auto simp: calibrate_frame)
next
  case (Detect r t)
  from assms[unfolded Detect] obtain b rw f bpm where o: "out = Some (b, rw, f, bpm)"
    and d: "detect_beat r t s = Inr ((b, rw, f, bpm), s')"
    by (rule exec_Detect_Inr)
  show ?thesis
  proof (cases b)
    case True
    from detect_beat_edge(1)[OF d] detect_beat_edge(7,8)[OF d True] True o Detect
    show ?thesis by simp
  next
    case False
    from detect_beat_edge(2,3,4)[OF d False] False o show ?thesis by simp
  qed
qed

lemma pushed_600:
  assumes "window_ok s" and "beat_intervals s = old @ replicate n 600"
  shows "\<exists>old'. pushed s 600 = old' @ replicate (min 5 (n + 1)) 600"
proof -
  from assms have len: "length old + n \<le> 5" and mx: "max_intervals s = 5"
    by (simp_all add: window_ok_def)
  have lenb: "length (beat_intervals s) = length old + n" by (simp add: assms(2))
  have app: "beat_intervals s @ [600] = old @ replicate (Suc n) 600"
    unfolding assms(2) by (simp only: append_assoc replicate_append_same replicate_Suc)
  show ?thesis
  proof (cases "length old + n < 5")
    case True
    then have "pushed s 600 = beat_intervals s @ [600]"
      unfolding pushed_def mx lenb by simp
    then have "pushed s 600 = old @ replicate (Suc n) 600" by (simp only: app)
    moreover from True have "min 5 (n + 1) = Suc n" by simp
    ultimately show ?thesis by metis
  next
    case False
    with len have five: "length old + n = 5" by simp
    then have "pushed s 600 = tl (beat_intervals s @ [600])"
      unfolding pushed_def mx lenb by simp
    then have p: "pushed s 600 = tl (old @ replicate (Suc n) 600)" by (simp only: app)
    show ?thesis
    proof (cases old)
      case Nil
      with five have "n = 5" by simp
      with p Nil have "pushed s 600 = [] @ replicate (min 5 (n + 1)) 600" by simp
      then show ?thesis by blast
    next
      case (Cons a old1)
      with five have "min 5 (n + 1) = Suc n" by simp
      with p Cons have "pushed s 600 = old1 @ replicate (min 5 (n + 1)) 600" by simp
      then show ?thesis by blast
    qed
  qed
qed

lemma run_train_continues:
  assumes "run cs s = Inr (outs, s')" and "window_ok s"
    and "beat_intervals s = old @ replicate n 600" and "0 < last_beat_time s"
    and "successively (\<lambda>a b. b = a + 600) (last_beat_time s # beat_times cs outs)"
  shows "\<exists>old'. beat_intervals s' = old' @ replicate (min 5 (n + length (beat_times cs outs))) 600"
  using assms
proof (induction cs arbitrary: s outs n old)
  case Nil
  then have "n \<le> 5" by (simp add: window_ok_def)
  then have "min 5 n = n" by simp
  with Nil show ?case by auto
next
  case (Cons c cs)
  from Cons.prems(1) obtain out s1 outs1 where e: "exec c s = Inr (out, s1)"
    and r: "run cs s1 = Inr (outs1, s')" and o: "outs = out # outs1"
    by (rule run_Cons_Inr)
  note w1 = exec_invariants(2)[OF e Cons.prems(2)]
  from exec_beat_or_not[OF e] show ?case
  proof (elim disjE exE conjE)
    fix r0 t x
    assume c: "c = Detect r0 t" and ob: "out = Some (True, x)"
      and l1: "last_beat_time s1 = t"
      and b1: "beat_intervals s1 = (if 0 < last_beat_time s
                  then pushed s (t - last_beat_time s) else beat_intervals s)"
    have bt: "beat_times (c # cs) outs = t # beat_times cs outs1"
      unfolding c o ob by simp
    note su0 = Cons.prems(5)[unfolded bt successively.simps(3)]
    from su0 have t: "t = last_beat_time s + 600" by (rule conjunct1)
    from su0 have su: "successively (\<lambda>a b. b = a + 600) (t # beat_times cs outs1)"
      by (rule conjunct2)
    from b1 t Cons.prems(4) have "beat_intervals s1 = pushed s 600" by simp
    with pushed_600[OF Cons.prems(2,3)] obtain old1
      where b1': "beat_intervals s1 = old1 @ replicate (min 5 (n + 1)) 600" by auto
    from t Cons.prems(4) l1 have pos: "0 < last_beat_time s1" by simp
    from Cons.IH[OF r w1 b1' pos] su l1 obtain old'
      where "beat_intervals s' = old' @ replicate (min 5 (min 5 (n + 1) + length (beat_times cs outs1))) 600"
      by auto
    moreover have "min 5 (min 5 (n + 1) + length (beat_times cs outs1))
        = min 5 (n + length (beat_times (c # cs) outs))"
      unfolding bt by simp
    ultimately show ?thesis by metis
  next
    assume nb: "\<forall>x. out \<noteq> Some (True, x)" and l1: "last_beat_time s1 = last_beat_time s"
      and b1: "beat_intervals s1 = beat_intervals s"
    have bt: "beat_times (c # cs) outs = beat_times cs outs1"
      unfolding o by (rule beat_times_no_beat[OF nb])
    from Cons.IH[OF r w1, of old n] b1 l1 Cons.prems(3,4,5) show ?thesis
      unfolding bt by simp
  qed
qed

lemma run_train:
  assumes "run cs s = Inr (outs, s')" and "window_ok s"
    and "successively (\<lambda>a b. b = a + 600) (beat_times cs outs)"
    and "6 \<le> length (beat_times cs outs)"
    and "\<forall>t \<in> set (beat_times cs outs). 0 < t"
  shows "beat_intervals s' = replicate 5 600"
  using assms
proof (induction cs arbitrary: s outs)
  case Nil
  then show ?case by auto
next
  case (Cons c cs)
  from Cons.prems(1) obtain out s1 outs1 where e: "exec c s = Inr (out, s1)"
    and r: "run cs s1 = Inr (outs1, s')" and o: "outs = out # outs1"
    by (rule run_Cons_Inr)
  note w1 = exec_invariants(2)[OF e Cons.prems(2)]
  from exec_beat_or_not[OF e] show ?case
  proof (elim disjE exE conjE)
    fix r0 t x
    assume c: "c = Detect r0 t" and ob: "out = Some (True, x)"
      and l1: "last_beat_time s1 = t"
    have bt: "beat_times (c # cs) outs = t # beat_times cs outs1"
      unfolding c o ob by simp
    from Cons.prems(5) have pos: "0 < last_beat_time s1" unfolding bt l1 by simp
    from Cons.prems(3) have su: "successively (\<lambda>a b. b = a + 600)
        (last_beat_time s1 # beat_times cs outs1)" unfolding bt l1 .
    from Cons.prems(4) have len: "5 \<le> length (beat_times cs outs1)" unfolding bt by simp
    have "beat_intervals s1 = beat_intervals s1 @ replicate 0 600" by simp
    from run_train_continues[OF r w1 this pos su] len obtain old'
      where b: "beat_intervals s' = old' @ replicate 5 600" by auto
    from run_invariants(2)[OF r w1] have "length (beat_intervals s') \<le> 5"
      by (simp add: window_ok_def)
    with b show ?thesis by simp
  next
    assume nb: "\<forall>x. out \<noteq> Some (True, x)"
    have bt: "beat_times (c # cs) outs = beat_times cs outs1"
      unfolding o by (rule beat_times_no_beat[OF nb])
    from Cons.IH[OF r w1] Cons.prems(3,4,5) show ?thesis unfolding bt by simp
  qed
qed

lemma beat_times_after:
  assumes "run cs s = Inr (outs, s')" and "0 \<le> min_beat_interval s" and "0 \<le> last_beat_time s"
  shows "\<forall>t \<in> set (beat_times cs outs). 0 < t"
  using assms
proof (induction cs arbitrary: s outs)
  case Nil
  then show ?case by auto
next
  case (Cons c cs)
  from Cons.prems(1) obtain out s1 outs1 where e: "exec c s = Inr (out, s1)"
    and r: "run cs s1 = Inr (outs1, s')" and o: "outs = out # outs1"
    by (rule run_Cons_Inr)
  have m: "min_beat_interval s1 = min_beat_interval s" by (rule exec_frame[OF e])
  from exec_beat_or_not[OF e] show ?case
  proof (elim disjE exE conjE)
    fix r0 t x
    assume c: "c = Detect r0 t" and ob: "out = Some (True, x)"
      and l1: "last_beat_time s1 = t" and gap: "min_beat_interval s < t - last_beat_time s"
    have bt: "beat_times (c # cs) outs = t # beat_times cs outs1"
      unfolding c o ob by simp
    from gap Cons.prems(2,3) have t: "0 < t" by linarith
    with Cons.IH[OF r] Cons.prems(2) m l1 show ?thesis unfolding bt by simp
  next
    assume nb: "\<forall>x. out \<noteq> Some (True, x)" and l1: "last_beat_time s1 = last_beat_time s"
    have bt: "beat_times (c # cs) outs = beat_times cs outs1"
      unfolding o by (rule beat_times_no_beat[OF nb])
    from Cons.IH[OF r] Cons.prems(2,3) m l1 show ?thesis unfolding bt by simp
  qed
qed

lemma run_last_out:
  assumes "run cs s = Inr (outs, s')" and "cs \<noteq> []" and "last cs = Detect r t"
  shows "\<exists>b rw f. last outs = Some (b, rw, f, current_bpm s')"
  using assms
proof (induction cs arbitrary: s outs)
  case Nil
  then show ?case by simp
next
  case (Cons c cs)
  from Cons.prems(1) obtain out s1 outs1 where e: "exec c s = Inr (out, s1)"
    and r: "run cs s1 = Inr (outs1, s')" and o: "outs = out # outs1"
    by (rule run_Cons_Inr)
  show ?case
  proof (cases "cs = []")
    case True
    with r have s1: "s1 = s'" "outs1 = []" by simp_all
    from True Cons.prems(3) have c: "c = Detect r t" by simp
    from e[unfolded c] obtain b rw f bpm where ob: "out = Some (b, rw, f, bpm)"
      and d: "detect_beat r t s = Inr ((b, rw, f, bpm), s1)"
      by (rule exec_Detect_Inr)
    from detect_beat_state(10)[OF d] ob o s1 show ?thesis by simp
  next
    case False
    from run_length[OF r] False have "outs1 \<noteq> []" by auto
    with Cons.IH[OF r False] Cons.prems(3) False o show ?thesis by simp
  qed
qed

lemma bpm_of_600: "bpm_of (replicate 5 600) = 100"
  by (simp add: bpm_of_def py_int_def numeral_eq_Suc)

section \<open>The ring buffer\<close>

lemma length_ten:
  assumes "length (rs :: 'a list) = 10"
  obtains r0 r1 r2 r3 r4 r5 r6 r7 r8 r9 where "rs = [r0, r1, r2, r3, r4, r5, r6, r7, r8, r9]"
proof -
  from assms have "length rs = Suc (Suc (Suc (Suc (Suc (Suc (Suc (Suc (Suc (Suc 0)))))))))"
    by simp
  then show ?thesis
    by (auto simp: length_Suc_conv intro: that)
qed

lemma less_ten:
  assumes "(i::nat) < 10"
  shows "i = 0 \<or> i = 1 \<or> i = 2 \<or> i = 3 \<or> i = 4 \<or> i = 5 \<or> i = 6 \<or> i = 7 \<or> i = 8 \<or> i = 9"
  using assms by arith

lemma read_filtered_ok:
  assumes "reading_index s < length (readings s)" and "filter_size s \<noteq> 0"
  shows "read_filtered r s =
     Inr ((uint r, sum_list ((readings s)[reading_index s := uint r]) div int (filter_size s)),
          s\<lparr>readings := (readings s)[reading_index s := uint r],
            reading_index := (reading_index s + 1) mod filter_size s,
            filtered_value := sum_list ((readings s)[reading_index s := uint r]) div int (filter_size s)\<rparr>)"
  using assms by (simp add: read_filtered_def Let_def)

lemma ring_pass_any:
  assumes fs: "filter_size s = 10"
    and rd: "readings s = [a0, a1, a2, a3, a4, a5, a6, a7, a8, a9]"
    and i: "reading_index s = i" and "i < 10"
  shows "\<exists>outs s'. read_all [r0, r1, r2, r3, r4, r5, r6, r7, r8, r9] s = Inr (outs, s')
    \<and> length outs = 10
    \<and> last outs = (uint r9, (uint r0 + uint r1 + uint r2 + uint r3 + uint r4 + uint r5
          + uint r6 + uint r7 + uint r8 + uint r9) div 10)
    \<and> filtered_value s' = (uint r0 + uint r1 + uint r2 + uint r3 + uint r4 + uint r5
          + uint r6 + uint r7 + uint r8 + uint r9) div 10
    \<and> reading_index s' = i"
  using less_ten[OF \<open>i < 10\<close>]
  apply (elim disjE)
  by (simp_all add: read_filtered_def Let_def fs rd i)

text \<open>
  Claim C5. Take a window of ten slots, with any contents (the zero-initialised window in
  particular) and the write index anywhere. Ten calls of \<open>read_filtered\<close> that read
  \<open>r1 .. r10\<close> all return, and the tenth returns the last sample and the truncated mean
  \<open>(r1 + ... + r10) div 10\<close> of the ten samples alone; the index is back where it started.
  Each single call returns its sample and the truncated mean of the window after the
  write, writes the sample at the current index and nowhere else, and advances the index
  modulo 10.
\<close>

theorem ring_buffer_mean:
  assumes "filter_size s = 10" and "length (readings s) = 10"
    and "reading_index s < 10" and "length rs = 10"
  shows "(\<exists>outs s'. read_all rs s = Inr (outs, s')
            \<and> length outs = 10
            \<and> last outs = (uint (last rs), sum_list (map uint rs) div 10)
            \<and> filtered_value s' = sum_list (map uint rs) div 10
            \<and> reading_index s' = reading_index s)
     \<and> read_filtered r s =
            Inr ((uint r, sum_list ((readings s)[reading_index s := uint r]) div 10),
                 s\<lparr>readings := (readings s)[reading_index s := uint r],
                   reading_index := (reading_index s + 1) mod 10,
                   filtered_value := sum_list ((readings s)[reading_index s := uint r]) div 10\<rparr>)"
proof -
  from assms(4) obtain r0 r1 r2 r3 r4 r5 r6 r7 r8 r9
    where rs: "rs = [r0, r1, r2, r3, r4, r5, r6, r7, r8, r9]" by (rule length_ten)
  from assms(2) obtain a0 a1 a2 a3 a4 a5 a6 a7 a8 a9
    where rd: "readings s = [a0, a1, a2, a3, a4, a5, a6, a7, a8, a9]" by (rule length_ten)
  from ring_pass_any[OF assms(1) rd refl assms(3), of r0 r1 r2 r3 r4 r5 r6 r7 r8 r9]
  have "\<exists>outs s'. read_all rs s = Inr (outs, s')
            \<and> length outs = 10
            \<and> last outs = (uint (last rs), sum_list (map uint rs) div 10)
            \<and> filtered_value s' = sum_list (map uint rs) div 10
            \<and> reading_index s' = reading_index s"
    unfolding rs by (simp add: add.assoc)
  moreover from assms(1,2,3) have "reading_index s < length (readings s)" "filter_size s \<noteq> 0"
    by simp_all
  from read_filtered_ok[OF this, of r] assms(1)
  have "read_filtered r s =
            Inr ((uint r, sum_list ((readings s)[reading_index s := uint r]) div 10),
                 s\<lparr>readings := (readings s)[reading_index s := uint r],
                   reading_index := (reading_index s + 1) mod 10,
                   filtered_value := sum_list ((readings s)[reading_index s := uint r]) div 10\<rparr>)"
    by simp
  ultimately show ?thesis by blast
qed

theorem ring_buffer_mean_witness:
  "filter_size (init (6 / 10) 300\<lparr>reading_index := 7\<rparr>) = 10
   \<and> readings (init (6 / 10) 300\<lparr>reading_index := 7\<rparr>) = replicate 10 0
   \<and> length (readings (init (6 / 10) 300\<lparr>reading_index := 7\<rparr>)) = 10
   \<and> reading_index (init (6 / 10) 300\<lparr>reading_index := 7\<rparr>) < 10
   \<and> length [10, 20, 30, 40, 50, 60, 70, 80, 90, 100 :: u16] = 10
   \<and> (\<exists>outs s'. read_all [10, 20, 30, 40, 50, 60, 70, 80, 90, 100]
                    (init (6 / 10) 300\<lparr>reading_index := 7\<rparr>) = Inr (outs, s')
          \<and> last outs = (100, 55) \<and> filtered_value s' = 55 \<and> reading_index s' = 7)"
proof -
  let ?s = "init (6 / 10) 300\<lparr>reading_index := 7\<rparr>"
  let ?rs = "[10, 20, 30, 40, 50, 60, 70, 80, 90, 100 :: u16]"
  have a: "filter_size ?s = 10" and z: "readings ?s = replicate 10 0"
    and c: "reading_index ?s < 10" by (simp_all add: init_def)
  have b: "length (readings ?s) = 10" by (simp add: init_def)
  have d: "length ?rs = 10" by simp
  have e: "reading_index ?s = 7" by simp
  have v: "uint (last ?rs) = 100" "sum_list (map uint ?rs) div 10 = 55" by simp_all
  from ring_buffer_mean [OF a b c d, of 0, THEN conjunct1] obtain outs s'
    where "read_all ?rs ?s = Inr (outs, s')"
      and "last outs = (uint (last ?rs), sum_list (map uint ?rs) div 10)"
      and "filtered_value s' = sum_list (map uint ?rs) div 10"
      and "reading_index s' = reading_index ?s"
    by blast
  then have "\<exists>outs s'. read_all ?rs ?s = Inr (outs, s')
          \<and> last outs = (100, 55) \<and> filtered_value s' = 55 \<and> reading_index s' = 7"
    unfolding v e by blast
  with a z b c d show ?thesis by blast
qed

section \<open>Calibration\<close>

lemma fold_min_max:
  "fold (\<lambda>raw (mn, mx). (min mn raw, max mx raw)) xs (a, b)
     = (Min (insert a (set xs)), Max (insert b (set xs)))"
proof (induction xs arbitrary: a b)
  case Nil
  show ?case by simp
next
  case (Cons x xs)
  have "Min (insert (min a x) (set xs)) = Min (insert a (insert x (set xs)))"
    by (cases "xs = []") (simp_all add: ac_simps)
  moreover have "Max (insert (max b x) (set xs)) = Max (insert b (insert x (set xs)))"
    by (cases "xs = []") (simp_all add: ac_simps)
  ultimately show ?case by (simp add: Cons.IH)
qed

lemma calibrate_loop_Min_Max:
  assumes "0 < n"
  shows "calibrate_loop adc n
           = (min 65535 (Min (set (samples adc n))), max 0 (Max (set (samples adc n))))"
proof -
  from assms have "set (samples adc n) \<noteq> {}" by (simp add: samples_def)
  then show ?thesis
    unfolding calibrate_loop_def fold_min_max by simp
qed

lemma samples_bounds:
  assumes "x \<in> set (samples adc n)"
  shows "0 \<le> x" and "x \<le> 65535"
proof -
  from assms obtain i where x: "x = uint (adc i)" by (auto simp: samples_def)
  show "0 \<le> x" unfolding x by simp
  have "uint (adc i) < 2 ^ 16" using uint_lt2p[of "adc i"] by simp
  then show "x \<le> 65535" unfolding x by simp
qed

lemma calibrate_loop_samples:
  assumes "0 < n"
  shows "calibrate_loop adc n = (Min (set (samples adc n)), Max (set (samples adc n)))"
proof -
  from assms have ne: "set (samples adc n) \<noteq> {}" by (simp add: samples_def)
  then have "Min (set (samples adc n)) \<in> set (samples adc n)"
    "Max (set (samples adc n)) \<in> set (samples adc n)" by (simp_all add: Min_in Max_in del: set_empty)
  from samples_bounds(2)[OF this(1)] samples_bounds(1)[OF this(2)]
  show ?thesis by (simp add: calibrate_loop_Min_Max[OF assms])
qed

lemma calibrate_state:
  assumes "0 < calibration_samples s" and "0 \<le> threshold_factor s"
  shows "valley_value (calibrate adc s) = Min (set (samples adc (calibration_samples s)))"
    and "peak_value (calibrate adc s) = Max (set (samples adc (calibration_samples s)))"
    and "valley_value (calibrate adc s) \<le> baseline (calibrate adc s)"
    and "baseline (calibrate adc s) \<le> threshold (calibrate adc s)"
proof -
  let ?S = "set (samples adc (calibration_samples s))"
  let ?mn = "Min ?S" and ?mx = "Max ?S"
  from assms(1) have ne: "?S \<noteq> {}" by (simp add: samples_def)
  have le: "?mn \<le> ?mx" using ne by (simp add: Min_le_iff del: set_empty)
  note cl = calibrate_loop_samples[OF assms(1), of adc]
  show "valley_value (calibrate adc s) = ?mn" "peak_value (calibrate adc s) = ?mx"
    by (simp_all add: calibrate_def cl Let_def)
  from le show "valley_value (calibrate adc s) \<le> baseline (calibrate adc s)"
    by (simp add: calibrate_def cl Let_def)
  from le assms(2) have "0 \<le> of_int (?mx - ?mn) * threshold_factor s" by simp
  then have "0 \<le> py_int (of_int (?mx - ?mn) * threshold_factor s)"
    by (simp add: py_int_def)
  then show "baseline (calibrate adc s) \<le> threshold (calibrate adc s)"
    by (simp add: calibrate_def cl Let_def)
qed

text \<open>
  Claim C6. For 100 calibration samples with minimum 20000 and maximum 40000 and a
  threshold factor of 0.6, \<open>calibrate\<close> sets baseline 30000, threshold 42000, valley 20000,
  peak 40000 and the calibrated flag, and changes nothing else.
\<close>

theorem calibrate_deterministic:
  assumes "calibration_samples s = 100"
    and "threshold_factor s = 6 / 10"
    and "Min (set (samples adc 100)) = 20000"
    and "Max (set (samples adc 100)) = 40000"
  shows "calibrate adc s =
           s\<lparr>baseline := 30000, threshold := 42000, valley_value := 20000,
             peak_value := 40000, calibrated := True\<rparr>"
proof -
  have "calibrate_loop adc 100 = (20000, 40000)"
    by (simp add: calibrate_loop_Min_Max assms)
  then show ?thesis
    by (simp add: calibrate_def assms py_int_def)
qed

theorem calibrate_deterministic_witness:
  "calibration_samples (init (6 / 10) 300) = 100
   \<and> threshold_factor (init (6 / 10) 300) = 6 / 10
   \<and> Min (set (samples square_adc 100)) = 20000
   \<and> Max (set (samples square_adc 100)) = 40000
   \<and> calibrate square_adc (init (6 / 10) 300) =
       (init (6 / 10) 300)\<lparr>baseline := 30000, threshold := 42000, valley_value := 20000,
             peak_value := 40000, calibrated := True\<rparr>"
proof -
  have a: "calibration_samples (init (6 / 10) 300) = 100"
    and b: "threshold_factor (init (6 / 10) 300) = 6 / 10"
    by (simp_all add: init_def)
  have c: "Min (set (samples square_adc 100)) = 20000"
    by code_simp
  have d: "Max (set (samples square_adc 100)) = 40000"
    by code_simp
  from calibrate_deterministic [OF a b c d] a b c d show ?thesis by simp
qed

section \<open>Signal strength\<close>

text \<open>
  Claim C8. In every state \<open>get_signal_strength\<close> returns
  \<open>clamp(0, 100, (peak_value - valley_value - 500) / 100)\<close> with integer truncation. So
  a range of 500 gives 0, a range of 1500 gives 10, every range from 10500 on gives 100,
  and the result always lies between 0 and 100, also where the range is negative, as in
  the initial state (peak 0, valley 65535).
\<close>

theorem signal_strength_clamped:
  "get_signal_strength s = spec_signal_strength (peak_value s) (valley_value s)
   \<and> 0 \<le> get_signal_strength s \<and> get_signal_strength s \<le> 100
   \<and> (peak_value s - valley_value s = 500 \<longrightarrow> get_signal_strength s = 0)
   \<and> (peak_value s - valley_value s = 1500 \<longrightarrow> get_signal_strength s = 10)
   \<and> (peak_value s - valley_value s \<ge> 10500 \<longrightarrow> get_signal_strength s = 100)
   \<and> (peak_value s - valley_value s < 0 \<longrightarrow> get_signal_strength s = 0)
   \<and> get_signal_strength (init tf mbi) = 0"
proof -
  let ?d = "(peak_value s - valley_value s - 500) div 100"
  have g: "get_signal_strength s = min 100 (max 0 ?d)"
    by (simp add: get_signal_strength_def)
  have "get_signal_strength s = spec_signal_strength (peak_value s) (valley_value s)"
    unfolding g spec_signal_strength_def clamp_def signed_divide_int_def
    by (simp add: sgn_if min_def max_def)
  moreover have "0 \<le> get_signal_strength s" "get_signal_strength s \<le> 100"
    unfolding g by simp_all
  moreover have "peak_value s - valley_value s = 500 \<longrightarrow> get_signal_strength s = 0"
    unfolding g by simp
  moreover have "peak_value s - valley_value s = 1500 \<longrightarrow> get_signal_strength s = 10"
    unfolding g by simp
  moreover have "peak_value s - valley_value s \<ge> 10500 \<longrightarrow> get_signal_strength s = 100"
  proof
    assume "10500 \<le> peak_value s - valley_value s"
    then have "100 \<le> ?d" by linarith
    then show "get_signal_strength s = 100" unfolding g by simp
  qed
  moreover have "peak_value s - valley_value s < 0 \<longrightarrow> get_signal_strength s = 0"
  proof
    assume "peak_value s - valley_value s < 0"
    then have "?d < 0" by linarith
    then show "get_signal_strength s = 0" unfolding g by simp
  qed
  moreover have "get_signal_strength (init tf mbi) = 0"
    by (simp add: get_signal_strength_def init_def)
  ultimately show ?thesis by blast
qed

theorem signal_strength_clamped_witness:
  "(peak_value (range_state 20500 20000) - valley_value (range_state 20500 20000) = 500
      \<and> get_signal_strength (range_state 20500 20000) = 0)
   \<and> (peak_value (range_state 21500 20000) - valley_value (range_state 21500 20000) = 1500
      \<and> get_signal_strength (range_state 21500 20000) = 10)
   \<and> (peak_value (range_state 30500 20000) - valley_value (range_state 30500 20000) \<ge> 10500
      \<and> get_signal_strength (range_state 30500 20000) = 100)
   \<and> (peak_value (range_state 0 65535) - valley_value (range_state 0 65535) < 0
      \<and> get_signal_strength (range_state 0 65535) = 0)"
  using signal_strength_clamped [where s = "range_state 20500 20000" and tf = 0 and mbi = 0]
    signal_strength_clamped [where s = "range_state 21500 20000" and tf = 0 and mbi = 0]
    signal_strength_clamped [where s = "range_state 30500 20000" and tf = 0 and mbi = 0]
    signal_strength_clamped [where s = "range_state 0 65535" and tf = 0 and mbi = 0]
  by (simp add: range_state_def)

section \<open>The adaptive range and the threshold\<close>

text \<open>
  Claim C10. Over any run of \<open>detect_beat\<close> calls with no \<open>calibrate\<close> between them the
  peak does not fall and the valley does not rise, so the range only grows; every filtered
  value the run returned lies between the final valley and the final peak, so a single
  spike stays in the peak.
\<close>

theorem range_only_grows:
  assumes "run (detects ins) s = Inr (outs, s')"
  shows "peak_value s \<le> peak_value s' \<and> valley_value s' \<le> valley_value s
     \<and> peak_value s - valley_value s \<le> peak_value s' - valley_value s'
     \<and> (\<forall>b rw f bpm. Some (b, rw, f, bpm) \<in> set outs
            \<longrightarrow> valley_value s' \<le> f \<and> f \<le> peak_value s')"
  using assms by (rule run_detects_range)

theorem range_only_grows_witness:
  "run (detects [(0, 0), (60000, 10)]) (init (6 / 10) 300)
     = Inr (outputs_of (detects [(0, 0), (60000, 10)]), state_after (detects [(0, 0), (60000, 10)]))
   \<and> peak_value (init (6 / 10) 300) \<le> peak_value (state_after (detects [(0, 0), (60000, 10)]))
   \<and> valley_value (state_after (detects [(0, 0), (60000, 10)])) \<le> valley_value (init (6 / 10) 300)
   \<and> peak_value (state_after (detects [(0, 0), (60000, 10)])) = 6000
   \<and> valley_value (state_after (detects [(0, 0), (60000, 10)])) = 0"
proof -
  have r: "run (detects [(0, 0), (60000, 10)]) (init (6 / 10) 300)
     = Inr (outputs_of (detects [(0, 0), (60000, 10)]), state_after (detects [(0, 0), (60000, 10)]))"
    by code_simp
  have v: "peak_value (state_after (detects [(0, 0), (60000, 10)])) = 6000"
    "valley_value (state_after (detects [(0, 0), (60000, 10)])) = 0"
    by code_simp+
  from range_only_grows [OF r] r v show ?thesis by simp
qed

lemma run_detects_factor:
  assumes "run (detects ins) s = Inr (outs, s')"
  shows "threshold_factor s' = threshold_factor s"
  using assms
proof (induction ins arbitrary: s outs)
  case Nil
  then show ?case by simp
next
  case (Cons x ins)
  obtain r t where x: "x = (r, t)" by (cases x)
  from Cons.prems obtain b rw f bpm s1 outs1
    where d: "detect_beat r t s = Inr ((b, rw, f, bpm), s1)"
      and r: "run (detects ins) s1 = Inr (outs1, s')"
    unfolding x by (rule run_detects_Cons)
  from Cons.IH[OF r] detect_beat_state(1)[OF d] show ?case by simp
qed

lemma run_detects_threshold:
  assumes "run (detects ins) s = Inr (outs, s')"
  shows "(peak_value s' - valley_value s' \<le> 1000 \<longrightarrow> threshold s' = threshold s)
     \<and> (ins \<noteq> [] \<and> 1000 < peak_value s' - valley_value s' \<longrightarrow>
           threshold s' = valley_value s'
                + py_int (of_int (peak_value s' - valley_value s') * threshold_factor s'))"
  using assms
proof (induction ins arbitrary: s outs)
  case Nil
  then show ?case by simp
next
  case (Cons x ins)
  obtain r t where x: "x = (r, t)" by (cases x)
  from Cons.prems obtain b rw f bpm s1 outs1
    where d: "detect_beat r t s = Inr ((b, rw, f, bpm), s1)"
      and r: "run (detects ins) s1 = Inr (outs1, s')"
      and o: "outs = Some (b, rw, f, bpm) # outs1"
    unfolding x by (rule run_detects_Cons)
  note ih = Cons.IH[OF r]
  note thr = detect_beat_state(9)[OF d]
  from run_detects_range[OF r]
  have grow: "peak_value s1 - valley_value s1 \<le> peak_value s' - valley_value s'" by blast
  have a: "threshold s' = threshold s" if le: "peak_value s' - valley_value s' \<le> 1000"
  proof -
    from le grow have "\<not> 1000 < peak_value s1 - valley_value s1" by linarith
    with thr have "threshold s1 = threshold s" by simp
    with ih le show ?thesis by simp
  qed
  have b: "threshold s' = valley_value s'
                + py_int (of_int (peak_value s' - valley_value s') * threshold_factor s')"
    if gt: "1000 < peak_value s' - valley_value s'"
  proof (cases "ins = []")
    case True
    with r have "s' = s1" by simp
    with thr gt show ?thesis by simp
  next
    case False
    with ih gt show ?thesis by simp
  qed
  from a b show ?case by blast
qed

text \<open>
  Claim C7. Over any run of \<open>detect_beat\<close> calls with no \<open>calibrate\<close> between them: while
  the range \<open>peak_value - valley_value\<close> is at most 1000 the threshold is the one the run
  started with (the range only grows, so a range of at most 1000 at the end was at most
  1000 at every call), and a threshold that differs from the one at the start means a
  range above 1000. After at least one call, with the default factor 0.6 and a range
  above 1000 within the 16 bits of the ADC, the threshold is
  \<open>valley + int((peak - valley) * 0.6)\<close>.
\<close>

theorem threshold_adaptation_floor:
  assumes "run (detects ins) s = Inr (outs, s')"
  shows "(peak_value s' - valley_value s' \<le> 1000 \<longrightarrow> threshold s' = threshold s)
     \<and> (threshold s' \<noteq> threshold s \<longrightarrow> 1000 < peak_value s' - valley_value s')
     \<and> (ins \<noteq> [] \<and> 1000 < peak_value s' - valley_value s'
          \<and> peak_value s' - valley_value s' \<le> 65535 \<and> threshold_factor s = 6 / 10 \<longrightarrow>
           threshold s' = valley_value s'
                + py_int (of_int (peak_value s' - valley_value s') * (6 / 10)))"
proof -
  note t = run_detects_threshold[OF assms]
  have "threshold s' = valley_value s'
                + py_int (of_int (peak_value s' - valley_value s') * (6 / 10))"
    if "ins \<noteq> []" "1000 < peak_value s' - valley_value s'" "threshold_factor s = 6 / 10"
  proof -
    from t that(1,2) have "threshold s' = valley_value s'
        + py_int (of_int (peak_value s' - valley_value s') * threshold_factor s')" by blast
    then show ?thesis by (simp only: run_detects_factor[OF assms] that(3))
  qed
  moreover from t have "threshold s' \<noteq> threshold s \<longrightarrow> 1000 < peak_value s' - valley_value s'"
    by linarith
  ultimately show ?thesis using t by blast
qed

theorem threshold_adaptation_floor_witness:
  "run (detects [(1000, 0), (2000, 10)]) (init (6 / 10) 300)
     = Inr (outputs_of (detects [(1000, 0), (2000, 10)]),
            state_after (detects [(1000, 0), (2000, 10)]))
   \<and> peak_value (state_after (detects [(1000, 0), (2000, 10)]))
       - valley_value (state_after (detects [(1000, 0), (2000, 10)])) \<le> 1000
   \<and> threshold (state_after (detects [(1000, 0), (2000, 10)])) = 35000
   \<and> run (detects [(0, 0), (60000, 10)]) (init (6 / 10) 300)
     = Inr (outputs_of (detects [(0, 0), (60000, 10)]), state_after (detects [(0, 0), (60000, 10)]))
   \<and> 1000 < peak_value (state_after (detects [(0, 0), (60000, 10)]))
       - valley_value (state_after (detects [(0, 0), (60000, 10)]))
   \<and> peak_value (state_after (detects [(0, 0), (60000, 10)]))
       - valley_value (state_after (detects [(0, 0), (60000, 10)])) \<le> 65535
   \<and> threshold_factor (init (6 / 10) 300) = 6 / 10
   \<and> threshold (state_after (detects [(0, 0), (60000, 10)])) \<noteq> threshold (init (6 / 10) 300)
   \<and> threshold (state_after (detects [(0, 0), (60000, 10)])) = 3600"
proof -
  let ?a = "state_after (detects [(1000, 0), (2000, 10)])"
  let ?b = "state_after (detects [(0, 0), (60000, 10)])"
  have ra: "run (detects [(1000, 0), (2000, 10)]) (init (6 / 10) 300)
     = Inr (outputs_of (detects [(1000, 0), (2000, 10)]), ?a)"
    by code_simp
  have rb: "run (detects [(0, 0), (60000, 10)]) (init (6 / 10) 300)
     = Inr (outputs_of (detects [(0, 0), (60000, 10)]), ?b)"
    by code_simp
  have la: "peak_value ?a - valley_value ?a \<le> 1000" by code_simp
  have gb: "1000 < peak_value ?b - valley_value ?b" by code_simp
  have ub: "peak_value ?b - valley_value ?b \<le> 65535" by code_simp
  have t: "threshold (init (6 / 10) 300) = 35000" by (simp add: init_def)
  have f: "threshold_factor (init (6 / 10) 300) = 6 / 10" by (simp add: init_def)
  have vb: "valley_value ?b + py_int (of_int (peak_value ?b - valley_value ?b) * (6 / 10))
      = 3600" by code_simp
  have ne: "[(0, 0), (60000, 10)] \<noteq> ([] :: (u16 \<times> int) list)" by simp
  from threshold_adaptation_floor [OF ra] la have "threshold ?a = threshold (init (6 / 10) 300)"
    by blast
  then have ta: "threshold ?a = 35000" unfolding t .
  from threshold_adaptation_floor [OF rb] gb ub f ne
  have "threshold ?b = valley_value ?b
      + py_int (of_int (peak_value ?b - valley_value ?b) * (6 / 10))"
    by blast
  then have tb: "threshold ?b = 3600" unfolding vb .
  from tb t have nb: "threshold ?b \<noteq> threshold (init (6 / 10) 300)" by simp
  from ra la ta rb gb ub f nb tb show ?thesis by blast
qed

lemma py_int_bounds:
  assumes "0 \<le> x" and "x \<le> of_int n"
  shows "0 \<le> py_int x" and "py_int x \<le> n"
proof -
  from assms(1) have e: "py_int x = \<lfloor>x\<rfloor>" by (simp add: py_int_def)
  from assms(1) show "0 \<le> py_int x" unfolding e by simp
  from assms(2) show "py_int x \<le> n" unfolding e by (simp add: floor_le_iff) 
qed

text \<open>
  Claim C1, as amended. The claim asks for \<open>valley \<le> threshold \<le> peak\<close> in every reachable
  state whose range exceeds 1000, the state produced by \<open>calibrate\<close> included. That state
  breaks it: \<open>calibrate\<close> sets the threshold to \<open>baseline + int((max - min) * factor)\<close>, which
  for samples between 20000 and 40000 and the factor 0.6 is 42000, above the peak 40000.
\<close>

theorem threshold_invariant_counterexample:
  "run [Calibrate square_adc] (init (6 / 10) 300)
     = Inr ([None], state_after [Calibrate square_adc])
   \<and> 1000 < peak_value (state_after [Calibrate square_adc])
            - valley_value (state_after [Calibrate square_adc])
   \<and> \<not> (valley_value (state_after [Calibrate square_adc])
            \<le> threshold (state_after [Calibrate square_adc])
         \<and> threshold (state_after [Calibrate square_adc])
            \<le> peak_value (state_after [Calibrate square_adc]))"
  by code_simp

text \<open>
  Claim C1, amended statement. For a threshold factor within its documented range from 0
  to 1, every state that a \<open>detect_beat\<close> call produces satisfies
  \<open>valley \<le> threshold \<le> peak\<close> when its range exceeds 1000, and has the threshold of the
  state before the call when its range is at most 1000. The state that \<open>calibrate\<close>
  produces from at least one sample has the minimum of the samples as valley and their
  maximum as peak, and satisfies \<open>valley \<le> baseline \<le> threshold\<close>; \<open>threshold \<le> peak\<close> is not
  promised there.
\<close>

theorem threshold_between_valley_and_peak:
  assumes "0 \<le> threshold_factor s" and "threshold_factor s \<le> 1"
    and "detect_beat r t s = Inr (out, s')"
  shows "(1000 < peak_value s' - valley_value s' \<longrightarrow>
            valley_value s' \<le> threshold s' \<and> threshold s' \<le> peak_value s')
     \<and> (peak_value s' - valley_value s' \<le> 1000 \<longrightarrow> threshold s' = threshold s)
     \<and> (0 < calibration_samples s \<longrightarrow>
            valley_value (calibrate adc s) = Min (set (samples adc (calibration_samples s)))
          \<and> peak_value (calibrate adc s) = Max (set (samples adc (calibration_samples s)))
          \<and> valley_value (calibrate adc s) \<le> baseline (calibrate adc s)
          \<and> baseline (calibrate adc s) \<le> threshold (calibrate adc s))"
proof -
  obtain b rw f bpm where out: "out = (b, rw, f, bpm)" by (cases out)
  note d = assms(3)[unfolded out]
  note thr = detect_beat_state(9)[OF d]
  note tf = detect_beat_state(1)[OF d]
  let ?rg = "peak_value s' - valley_value s'"
  have "valley_value s' \<le> threshold s' \<and> threshold s' \<le> peak_value s'" if gt: "1000 < ?rg"
  proof -
    let ?x = "of_int ?rg * threshold_factor s'"
    from gt have rg: "(0::rat) \<le> of_int ?rg" by simp
    from assms(1) rg have 0: "0 \<le> ?x" unfolding tf by simp
    from assms(2) rg have 1: "?x \<le> of_int ?rg" unfolding tf
      by (simp add: mult_left_le)
    from py_int_bounds[OF 0 1] thr gt show ?thesis by simp
  qed
  moreover have "threshold s' = threshold s" if "?rg \<le> 1000"
    using thr that by simp
  ultimately show ?thesis using calibrate_state[OF _ assms(1), of adc] by blast
qed

theorem threshold_between_valley_and_peak_witness:
  "(0::rat) \<le> threshold_factor (state_after [Calibrate square_adc])
   \<and> threshold_factor (state_after [Calibrate square_adc]) \<le> 1
   \<and> detect_beat 0 0 (state_after [Calibrate square_adc])
       = Inr ((False, 0, 0, 0), state_after [Calibrate square_adc, Detect 0 0])
   \<and> 1000 < peak_value (state_after [Calibrate square_adc, Detect 0 0])
            - valley_value (state_after [Calibrate square_adc, Detect 0 0])
   \<and> valley_value (state_after [Calibrate square_adc, Detect 0 0])
        \<le> threshold (state_after [Calibrate square_adc, Detect 0 0])
   \<and> threshold (state_after [Calibrate square_adc, Detect 0 0])
        \<le> peak_value (state_after [Calibrate square_adc, Detect 0 0])
   \<and> 0 < calibration_samples (state_after [Calibrate square_adc])
   \<and> valley_value (calibrate square_adc (state_after [Calibrate square_adc]))
        \<le> threshold (calibrate square_adc (state_after [Calibrate square_adc]))"
proof -
  let ?s = "state_after [Calibrate square_adc]"
  let ?s' = "state_after [Calibrate square_adc, Detect 0 0]"
  have a: "(0::rat) \<le> threshold_factor ?s" and b: "threshold_factor ?s \<le> 1"
    by code_simp+
  have d: "detect_beat 0 0 ?s = Inr ((False, 0, 0, 0), ?s')" by code_simp
  have r: "1000 < peak_value ?s' - valley_value ?s'" by code_simp
  have n: "0 < calibration_samples ?s" by code_simp
  note t = threshold_between_valley_and_peak [OF a b d, of square_adc]
  from t r have i: "valley_value ?s' \<le> threshold ?s'" "threshold ?s' \<le> peak_value ?s'"
    by blast+
  from t n have "valley_value (calibrate square_adc ?s) \<le> baseline (calibrate square_adc ?s)"
    "baseline (calibrate square_adc ?s) \<le> threshold (calibrate square_adc ?s)" by blast+
  then have c: "valley_value (calibrate square_adc ?s) \<le> threshold (calibrate square_adc ?s)"
    by linarith
  from a b d r i n c show ?thesis by blast
qed

section \<open>The latch\<close>








section \<open>The refractory interval\<close>

text \<open>
  Claim C2. In any run of calls, two \<open>detect_beat\<close> calls whose times differ by less than
  \<open>min_beat_interval\<close> do not both return \<open>beat_detected = True\<close>; and a call returns
  \<open>True\<close> only if the time since \<open>last_beat_time\<close> exceeds \<open>min_beat_interval\<close>.
\<close>

theorem refractory_gating:
  assumes "run cs s = Inr (outs, s')"
    and "i < j" and "j < length cs"
    and "cs ! i = Detect ri ti" and "cs ! j = Detect rj tj"
    and "outs ! i = Some (bi, xi)" and "outs ! j = Some (bj, xj)"
    and "\<bar>tj - ti\<bar> < min_beat_interval s"
  shows "\<not> (bi \<and> bj)
     \<and> (\<forall>r t s0 rw f bpm s1. detect_beat r t s0 = Inr ((True, rw, f, bpm), s1) \<longrightarrow>
           min_beat_interval s0 < t - last_beat_time s0)"
proof -
  have "\<not> (bi \<and> bj)"
  proof
    assume "bi \<and> bj"
    with assms have o: "outs ! i = Some (True, xi)" "outs ! j = Some (True, xj)" by simp_all
    from assms(8) have "0 \<le> min_beat_interval s" by linarith
    from run_beats_apart[OF assms(1) this assms(2,3,4,5) o] assms(8)
    show False by linarith
  qed
  moreover have "min_beat_interval s0 < t - last_beat_time s0"
    if "detect_beat r t s0 = Inr ((True, rw, f, bpm), s1)" for r t s0 rw f bpm s1
    using detect_beat_edge(1)[OF that] by simp
  ultimately show ?thesis by blast
qed

theorem refractory_gating_witness:
  "run close_calls (init (6 / 10) 300) = Inr (outputs_of close_calls, state_after close_calls)
   \<and> (1::nat) < 5 \<and> 5 < length close_calls
   \<and> close_calls ! 1 = Detect 60000 1000 \<and> close_calls ! 5 = Detect 0 1200
   \<and> outputs_of close_calls ! 1 = Some (True, 60000, 6000, 0)
   \<and> outputs_of close_calls ! 5 = Some (False, 0, 6000, 0)
   \<and> \<bar>1200 - 1000\<bar> < min_beat_interval (init (6 / 10) 300)
   \<and> \<not> (True \<and> False)"
proof -
  have h1: "run close_calls (init (6 / 10) 300)
      = Inr (outputs_of close_calls, state_after close_calls)" by code_simp
  have h2: "(1::nat) < 5" by simp
  have h3: "5 < length close_calls" by (simp add: close_calls_def)
  have h4: "close_calls ! 1 = Detect 60000 1000" by (simp add: close_calls_def)
  have h5: "close_calls ! 5 = Detect 0 1200" by (simp add: close_calls_def)
  have h6: "outputs_of close_calls ! 1 = Some (True, 60000, 6000, 0)" by code_simp
  have h7: "outputs_of close_calls ! 5 = Some (False, 0, 6000, 0)" by code_simp
  have h8: "\<bar>1200 - 1000\<bar> < min_beat_interval (init (6 / 10) 300)" by (simp add: init_def)
  from refractory_gating [OF h1 h2 h3 h4 h5 h6 h7 h8] h1 h2 h3 h4 h5 h6 h7 h8
  show ?thesis by simp
qed

section \<open>The BPM\<close>





text \<open>
  Claim C4. Take a sensor started with a refractory interval that is not negative, in the
  state \<open>s\<close> it has reached after any calls. If the calls that follow report at least six
  beats, and the times of the beats they report are exactly 600 ms apart, then the BPM
  after them is 100, and a \<open>detect_beat\<close> call that ends such a run returns the BPM 100:
  by then the window holds five intervals of 600.
\<close>

theorem bpm_converges:
  assumes "run pre (init tf mbi) = Inr (outs0, s)" and "0 \<le> mbi"
    and "run cs s = Inr (outs, s')"
    and "successively (\<lambda>a b. b = a + 600) (beat_times cs outs)"
    and "6 \<le> length (beat_times cs outs)"
  shows "current_bpm s' = 100
     \<and> (\<forall>r t. cs \<noteq> [] \<and> last cs = Detect r t \<longrightarrow> (\<exists>b rw f. last outs = Some (b, rw, f, 100)))"
proof -
  note w = run_invariants(2)[OF assms(1) init_invariants(2)]
  note m = run_invariants(1)[OF assms(1) init_invariants(1)]
  have mbi: "min_beat_interval s = mbi"
    using run_invariants(3)[OF assms(1)] by (simp add: init_invariants)
  from run_beats_after[OF assms(1)] assms(2) have l: "0 \<le> last_beat_time s"
    by (simp add: init_invariants)
  from beat_times_after[OF assms(3) _ l] assms(2) mbi
  have pos: "\<forall>t \<in> set (beat_times cs outs). 0 < t" by simp
  from run_train[OF assms(3) w assms(4,5) pos]
  have b: "beat_intervals s' = replicate 5 600" .
  from run_invariants(1)[OF assms(3) m] have "bpm_matches_window s'" .
  with b have c: "current_bpm s' = 100"
    by (simp add: bpm_matches_window_def bpm_of_600)
  from run_last_out[OF assms(3)] c show ?thesis by auto
qed

theorem bpm_converges_witness:
  "run [] (init (6 / 10) 300) = Inr ([], init (6 / 10) 300)
   \<and> (0::int) \<le> 300
   \<and> run train (init (6 / 10) 300) = Inr (train_outs, state_after train)
   \<and> successively (\<lambda>a b. b = a + 600) (beat_times train train_outs)
   \<and> 6 \<le> length (beat_times train train_outs)
   \<and> current_bpm (state_after train) = 100
   \<and> last train_outs = Some (True, 60000, 6000, 100)"
proof -
  have h1: "run [] (init (6 / 10) 300) = Inr ([], init (6 / 10) 300)" by simp
  have h2: "(0::int) \<le> 300" by simp
  have h3: "run train (init (6 / 10) 300) = Inr (train_outs, state_after train)"
    by code_simp
  have bt: "beat_times train train_outs = [1000, 1600, 2200, 2800, 3400, 4000]"
    by (simp add: train_def train_outs_def)
  have h4: "successively (\<lambda>a b. b = a + 600) (beat_times train train_outs)"
    unfolding bt by simp
  have h5: "6 \<le> length (beat_times train train_outs)"
    unfolding bt by simp
  have h6: "last train_outs = Some (True, 60000, 6000, 100)"
    by (simp add: train_outs_def)
  from bpm_converges [OF h1 h2 h3 h4 h5] h1 h2 h3 h4 h5 h6 show ?thesis by simp
qed

end
